theory Spec2Isabelle
  imports Complex_Main "HOL-Library.Word"
begin

section \<open>The fixed-capacity hash map of \<^verbatim>\<open>hashmap.c\<close>\<close>

text \<open>
  The map is an array of \<^verbatim>\<open>capacity\<close> pairs, addressed by open addressing with
  linear probing. A slot counts as free exactly when its value is the empty string; there
  is no separate occupancy flag and no tombstone. The model keeps the C layout: the two
  \<^verbatim>\<open>size_t\<close> fields are 64-bit words, the array is a list, a pointer into the array
  is the index of the slot it points to, and \<^verbatim>\<open>NULL\<close> is \<open>None\<close>. Every function
  that mutates the map returns the new map next to its C result.
\<close>

subsection \<open>Keys, values and the string utility\<close>

text \<open>
  Modelled from the spec: the header \<^verbatim>\<open>hashmap.h\<close> and the string utility it includes
  are missing. The key type \<^verbatim>\<open>HashMapKey\<close> is an integer which the hash converts to
  \<^verbatim>\<open>size_t\<close>; it is taken as the 64-bit word that conversion yields. The value type
  \<^verbatim>\<open>HashMapValue\<close> is the utility's \<^verbatim>\<open>String\<close>, taken as the list of its characters;
  the zero-initialised \<^verbatim>\<open>(String){0}\<close> holds no characters.
\<close>

type_synonym HashMapKey = "64 word"
type_synonym HashMapValue = string

record HashMapPair =
  key :: HashMapKey
  val :: HashMapValue

text \<open>
  Modelled from the spec: \<^verbatim>\<open>string_empty\<close> is the emptiness test of the text capability,
  true iff the text holds no characters or is in the unset state.
\<close>

definition string_empty :: "HashMapValue \<Rightarrow> bool" where
  "string_empty s = (s = [])"

text \<open>
  Modelled from the spec: \<^verbatim>\<open>string_create_from\<close> constructs an owned copy of its
  source (copy semantics); the copy holds the same characters.
\<close>

definition string_create_from :: "HashMapValue \<Rightarrow> HashMapValue" where
  "string_create_from s = s"

text \<open>
  Modelled from the spec: \<^verbatim>\<open>string_deinit\<close> releases the text; what is left holds no
  characters. Every call in \<^verbatim>\<open>hashmap.c\<close> is followed by an assignment to the same field.
\<close>

definition string_deinit :: "HashMapValue \<Rightarrow> HashMapValue" where
  "string_deinit s = []"

text \<open>The zero-initialised \<^verbatim>\<open>(String){0}\<close>, and a pair as \<^verbatim>\<open>calloc\<close> leaves it.\<close>

definition string_zero :: HashMapValue where
  "string_zero = []"

definition pair_zero :: HashMapPair where
  "pair_zero = \<lparr>key = 0, val = string_zero\<rparr>"

subsection \<open>The map\<close>

record hash_map =
  capacity :: "64 word"
  size_hm :: "64 word"
  pairs :: "HashMapPair list"

text \<open>\<^verbatim>\<open>(size_t)(key % hm->capacity)\<close>, an unsigned remainder, read as an array index.\<close>

definition hash_map_hash :: "hash_map \<Rightarrow> HashMapKey \<Rightarrow> nat" where
  "hash_map_hash hm k = unat (k mod capacity hm)"

text \<open>
  \<^verbatim>\<open>hash_map_create_with\<close>: \<open>None\<close> is the \<^verbatim>\<open>NULL\<close> returned for capacity 0. The two
  allocations are taken to succeed; \<^verbatim>\<open>calloc\<close> zeroes every pair.
\<close>

definition hash_map_create_with :: "64 word \<Rightarrow> hash_map option" where
  "hash_map_create_with c =
     (if c \<le> 0 then None
      else Some \<lparr>capacity = c, size_hm = 0, pairs = replicate (unat c) pair_zero\<rparr>)"

definition hash_map_create :: "hash_map option" where
  "hash_map_create = hash_map_create_with 16"

text \<open>
  The step shared by the three probing loops:
  \<^verbatim>\<open>pair++; if (pair == map->pairs + map->capacity) pair = map->pairs;\<close>
\<close>

definition advance :: "nat \<Rightarrow> nat \<Rightarrow> nat" where
  "advance cap p = (if p + 1 = cap then 0 else p + 1)"

text \<open>
  The loop of \<^verbatim>\<open>hash_map_find\<close>: \<open>p\<close> is the slot \<^verbatim>\<open>pair\<close> points to, the last
  argument counts the iterations left. The result is the slot whose value field the
  returned pointer addresses.
\<close>

fun find_loop :: "HashMapPair list \<Rightarrow> nat \<Rightarrow> HashMapKey \<Rightarrow> nat \<Rightarrow> nat \<Rightarrow> nat option" where
  "find_loop ps cap k p 0 = None"
| "find_loop ps cap k p (Suc n) =
     (if key (ps ! p) = k \<and> \<not> string_empty (val (ps ! p)) then Some p
      else find_loop ps cap k (advance cap p) n)"

definition hash_map_find :: "hash_map \<Rightarrow> HashMapKey \<Rightarrow> nat option" where
  "hash_map_find m k =
     find_loop (pairs m) (unat (capacity m)) k (hash_map_hash m k) (unat (capacity m))"

text \<open>Reading through the pointer that \<^verbatim>\<open>hash_map_find\<close> returns.\<close>

definition find_value :: "hash_map \<Rightarrow> HashMapKey \<Rightarrow> HashMapValue option" where
  "find_value m k = map_option (\<lambda>p. val (pairs m ! p)) (hash_map_find m k)"

text \<open>
  \<^verbatim>\<open>(double)map->size / map->capacity\<close>. The quotient is taken in the reals. The
  conversions to \<^verbatim>\<open>double\<close> are exact below \<open>2^53\<close>, and for such operands the rounded
  quotient is at least 1 exactly when the real one is; an array of \<open>2^53\<close> pairs or more
  is beyond what \<^verbatim>\<open>calloc\<close> can return.
\<close>

definition hash_map_load_factor :: "hash_map \<Rightarrow> real" where
  "hash_map_load_factor m = real (unat (size_hm m)) / real (unat (capacity m))"

fun insert_loop :: "hash_map \<Rightarrow> HashMapKey \<Rightarrow> HashMapValue \<Rightarrow> nat \<Rightarrow> nat \<Rightarrow> bool \<times> hash_map" where
  "insert_loop m k v p 0 = (False, m)"
| "insert_loop m k v p (Suc n) =
     (if string_empty (val (pairs m ! p)) then
        (True, m\<lparr>pairs := (pairs m)[p := \<lparr>key = k, val = string_create_from v\<rparr>],
                 size_hm := size_hm m + 1\<rparr>)
      else if key (pairs m ! p) = k then (False, m)
      else insert_loop m k v (advance (unat (capacity m)) p) n)"

definition hash_map_insert :: "hash_map \<Rightarrow> HashMapKey \<Rightarrow> HashMapValue \<Rightarrow> bool \<times> hash_map" where
  "hash_map_insert m k v =
     (if hash_map_load_factor m \<ge> 1 then (False, m)
      else insert_loop m k v (hash_map_hash m k) (unat (capacity m)))"

definition hash_map_insert_or_assign ::
  "hash_map \<Rightarrow> HashMapKey \<Rightarrow> HashMapValue \<Rightarrow> bool \<times> hash_map" where
  "hash_map_insert_or_assign m k v =
     (case hash_map_find m k of
        None \<Rightarrow> hash_map_insert m k v
      | Some p \<Rightarrow>
          (True, m\<lparr>pairs := (pairs m)[p := (pairs m ! p)\<lparr>val := string_create_from v\<rparr>]\<rparr>))"

fun remove_loop :: "hash_map \<Rightarrow> HashMapKey \<Rightarrow> nat \<Rightarrow> nat \<Rightarrow> bool \<times> hash_map" where
  "remove_loop m k p 0 = (False, m)"
| "remove_loop m k p (Suc n) =
     (if key (pairs m ! p) = k \<and> \<not> string_empty (val (pairs m ! p)) then
        (True, m\<lparr>pairs := (pairs m)[p := (pairs m ! p)\<lparr>val := string_zero\<rparr>],
                 size_hm := size_hm m - 1\<rparr>)
      else remove_loop m k (advance (unat (capacity m)) p) n)"

definition hash_map_remove :: "hash_map \<Rightarrow> HashMapKey \<Rightarrow> bool \<times> hash_map" where
  "hash_map_remove m k = remove_loop m k (hash_map_hash m k) (unat (capacity m))"

definition hash_map_contains :: "hash_map \<Rightarrow> HashMapKey \<Rightarrow> bool" where
  "hash_map_contains m k = (hash_map_find m k \<noteq> None)"

fun clear_loop :: "HashMapPair list \<Rightarrow> nat \<Rightarrow> nat \<Rightarrow> HashMapPair list" where
  "clear_loop ps i 0 = ps"
| "clear_loop ps i (Suc n) = clear_loop (ps[i := \<lparr>key = 0, val = string_zero\<rparr>]) (i + 1) n"

definition hash_map_clear :: "hash_map \<Rightarrow> hash_map" where
  "hash_map_clear m = m\<lparr>pairs := clear_loop (pairs m) 0 (unat (capacity m)), size_hm := 0\<rparr>"

definition hash_map_size :: "hash_map \<Rightarrow> 64 word" where
  "hash_map_size m = size_hm m"

definition hash_map_capacity :: "hash_map \<Rightarrow> 64 word" where
  "hash_map_capacity m = capacity m"

definition hash_map_empty :: "hash_map \<Rightarrow> bool" where
  "hash_map_empty m = (size_hm m = 0)"





subsection \<open>Callers\<close>

text \<open>
  A caller's sequence of mutating calls, run from a map: the states reachable from a
  freshly created map are the results of \<open>run\<close> on it.
\<close>

datatype operation =
  Insert HashMapKey HashMapValue
| InsertOrAssign HashMapKey HashMapValue
| Remove HashMapKey
| Clear

fun apply_operation :: "hash_map \<Rightarrow> operation \<Rightarrow> hash_map" where
  "apply_operation m (Insert k v) = snd (hash_map_insert m k v)"
| "apply_operation m (InsertOrAssign k v) = snd (hash_map_insert_or_assign m k v)"
| "apply_operation m (Remove k) = snd (hash_map_remove m k)"
| "apply_operation m Clear = hash_map_clear m"

fun run :: "hash_map \<Rightarrow> operation list \<Rightarrow> hash_map" where
  "run m [] = m"
| "run m (x # xs) = run (apply_operation m x) xs"

text \<open>The values a sequence of calls passes in.\<close>

fun operation_value :: "operation \<Rightarrow> HashMapValue option" where
  "operation_value (Insert k v) = Some v"
| "operation_value (InsertOrAssign k v) = Some v"
| "operation_value (Remove k) = None"
| "operation_value Clear = None"


subsection \<open>Well-formed maps\<close>

text \<open>
  What \<^verbatim>\<open>hash_map_create_with\<close> establishes and no function changes: a positive
  capacity and an array of that many pairs.
\<close>

definition wf :: "hash_map \<Rightarrow> bool" where
  "wf m = (0 < unat (capacity m) \<and> length (pairs m) = unat (capacity m))"

definition occupied :: "hash_map \<Rightarrow> nat \<Rightarrow> bool" where
  "occupied m i = (\<not> string_empty (val (pairs m ! i)))"

definition count_occupied :: "hash_map \<Rightarrow> nat" where
  "count_occupied m = length (filter (\<lambda>pr. \<not> string_empty (val pr)) (pairs m))"

text \<open>
  The relation between the \<^verbatim>\<open>size\<close> counter, the number of occupied slots and the
  capacity that every call keeps.
\<close>

definition size_inv :: "hash_map \<Rightarrow> bool" where
  "size_inv m = (wf m \<and> count_occupied m \<le> unat (size_hm m)
                 \<and> unat (size_hm m) \<le> unat (capacity m))"

text \<open>
  The scan of \<^verbatim>\<open>hash_map_insert\<close> read as a lookup: the slot at which the loop
  returns false for a key that already exists, that is the first slot on the probe run
  that holds the key, provided no free slot comes before it.
\<close>

fun probe_hit :: "HashMapPair list \<Rightarrow> nat \<Rightarrow> HashMapKey \<Rightarrow> nat \<Rightarrow> nat \<Rightarrow> nat option" where
  "probe_hit ps cap k p 0 = None"
| "probe_hit ps cap k p (Suc n) =
     (if string_empty (val (ps ! p)) then None
      else if key (ps ! p) = k then Some p
      else probe_hit ps cap k (advance cap p) n)"

text \<open>
  A sequence of calls without a removal: no call frees a slot that was occupied before it.
  A failed \<^verbatim>\<open>hash_map_remove\<close> and any \<^verbatim>\<open>hash_map_insert\<close> qualify; a successful
  \<^verbatim>\<open>hash_map_remove\<close>, a \<^verbatim>\<open>hash_map_clear\<close> of a map with an occupied slot and an
  \<^verbatim>\<open>hash_map_insert_or_assign\<close> of the empty string to a present key do not.
\<close>

fun frees_no_slot :: "hash_map \<Rightarrow> operation list \<Rightarrow> bool" where
  "frees_no_slot m [] = True"
| "frees_no_slot m (x # xs) =
     (list_all (\<lambda>i. occupied m i \<longrightarrow> occupied (apply_operation m x) i)
        [0..<unat (capacity m)]
      \<and> frees_no_slot (apply_operation m x) xs)"

text \<open>Whether a call is an \<^verbatim>\<open>hash_map_insert_or_assign\<close> of the given key.\<close>

fun assigns :: "HashMapKey \<Rightarrow> operation \<Rightarrow> bool" where
  "assigns k (InsertOrAssign k' v) = (k' = k)"
| "assigns k (Insert k' v) = False"
| "assigns k (Remove k') = False"
| "assigns k Clear = False"

section \<open>Properties of the probing loops\<close>

text \<open>The test both \<^verbatim>\<open>hash_map_find\<close> and \<^verbatim>\<open>hash_map_remove\<close> apply to a slot.\<close>

definition hit :: "HashMapKey \<Rightarrow> HashMapPair \<Rightarrow> bool" where
  "hit k pr = (key pr = k \<and> \<not> string_empty (val pr))"

lemma advance_less: "p < cap \<Longrightarrow> advance cap p < cap"
  by (simp add: advance_def)

lemma advance_mod: "p < cap \<Longrightarrow> advance cap p = (p + 1) mod cap"
  by (simp add: advance_def)

lemma hash_less: "wf m \<Longrightarrow> hash_map_hash m k < unat (capacity m)"
  unfolding wf_def hash_map_hash_def
  by (simp add: unat_mod)

lemma find_loop_hit:
  "p < cap \<Longrightarrow> find_loop ps cap k p n = Some q \<Longrightarrow> q < cap \<and> hit k (ps ! q)"
proof (induction n arbitrary: p)
  case 0
  then show ?case by simp
next
  case (Suc n)
  show ?case
  proof (cases "hit k (ps ! p)")
    case True
    with Suc.prems show ?thesis by (simp add: hit_def)
  next
    case False
    with Suc.prems have "find_loop ps cap k (advance cap p) n = Some q"
      by (simp add: hit_def split: if_splits)
    with Suc.IH [of "advance cap p"] Suc.prems(1) show ?thesis
      by (simp add: advance_less)
  qed
qed

lemma find_loop_cong:
  "\<forall>i<cap. hit k (ps ! i) = hit k (ps' ! i) \<Longrightarrow> p < cap \<Longrightarrow>
   find_loop ps cap k p n = find_loop ps' cap k p n"
proof (induction n arbitrary: p)
  case 0
  show ?case by simp
next
  case (Suc n)
  from Suc.prems have h: "hit k (ps ! p) = hit k (ps' ! p)" by simp
  have r: "find_loop ps cap k (advance cap p) n = find_loop ps' cap k (advance cap p) n"
    using Suc.IH [OF Suc.prems(1)] Suc.prems(2) by (simp add: advance_less)
  show ?case using h r by (simp add: hit_def)
qed

lemma find_loop_None_iff:
  "p < cap \<Longrightarrow>
   (find_loop ps cap k p n = None) = (\<forall>j<n. \<not> hit k (ps ! ((p + j) mod cap)))"
proof (induction n arbitrary: p)
  case 0
  show ?case by simp
next
  case (Suc n)
  have step: "\<And>j. (advance cap p + j) mod cap = (p + Suc j) mod cap"
    using Suc.prems by (simp add: advance_mod mod_add_left_eq)
  have ih: "(find_loop ps cap k (advance cap p) n = None) =
            (\<forall>j<n. \<not> hit k (ps ! ((p + Suc j) mod cap)))"
    using Suc.IH [of "advance cap p"] Suc.prems by (simp add: advance_less step)
  have split: "(\<forall>j<Suc n. \<not> hit k (ps ! ((p + j) mod cap))) =
        (\<not> hit k (ps ! p) \<and> (\<forall>j<n. \<not> hit k (ps ! ((p + Suc j) mod cap))))"
    using Suc.prems by (auto simp: less_Suc_eq_0_disj)
  show ?case
    unfolding split using ih by (auto simp: hit_def)
qed

lemma probe_surj:
  fixes p cap i :: nat
  assumes "p < cap" "i < cap"
  shows "\<exists>j<cap. (p + j) mod cap = i"
proof -
  let ?j = "(i + cap - p) mod cap"
  have "(p + ?j) mod cap = (p + (i + cap - p)) mod cap"
    by (simp add: mod_add_right_eq)
  also have "\<dots> = i" using assms by simp
  finally have "(p + ?j) mod cap = i" .
  moreover have "?j < cap" using assms by simp
  ultimately show ?thesis by blast
qed

lemma contains_iff:
  assumes "wf m"
  shows "hash_map_contains m k = (\<exists>i<unat (capacity m). hit k (pairs m ! i))"
proof -
  let ?cap = "unat (capacity m)"
  let ?p = "hash_map_hash m k"
  have p: "?p < ?cap" using assms by (rule hash_less)
  have "(hash_map_find m k = None) = (\<forall>j<?cap. \<not> hit k (pairs m ! ((?p + j) mod ?cap)))"
    unfolding hash_map_find_def using p by (rule find_loop_None_iff)
  also have "\<dots> = (\<forall>i<?cap. \<not> hit k (pairs m ! i))"
  proof
    assume a: "\<forall>j<?cap. \<not> hit k (pairs m ! ((?p + j) mod ?cap))"
    show "\<forall>i<?cap. \<not> hit k (pairs m ! i)"
    proof (intro allI impI)
      fix i assume "i < ?cap"
      with p obtain j where "j < ?cap" "(?p + j) mod ?cap = i"
        using probe_surj by blast
      with a show "\<not> hit k (pairs m ! i)" by auto
    qed
  next
    assume a: "\<forall>i<?cap. \<not> hit k (pairs m ! i)"
    show "\<forall>j<?cap. \<not> hit k (pairs m ! ((?p + j) mod ?cap))"
      using a p by simp
  qed
  finally show ?thesis by (auto simp: hash_map_contains_def)
qed

lemma remove_loop_eq:
  "remove_loop m k p n =
     (case find_loop (pairs m) (unat (capacity m)) k p n of
        None \<Rightarrow> (False, m)
      | Some q \<Rightarrow> (True, m\<lparr>pairs := (pairs m)[q := (pairs m ! q)\<lparr>val := string_zero\<rparr>],
                          size_hm := size_hm m - 1\<rparr>))"
  by (induction n arbitrary: p) simp_all

lemma insert_loop_False: "insert_loop m k v p n = (False, m') \<Longrightarrow> m' = m"
  by (induction n arbitrary: p) (auto split: if_splits)

lemma insert_loop_True:
  "p < unat (capacity m) \<Longrightarrow> insert_loop m k v p n = (True, m') \<Longrightarrow>
   \<exists>q<unat (capacity m). string_empty (val (pairs m ! q)) \<and>
      m' = m\<lparr>pairs := (pairs m)[q := \<lparr>key = k, val = string_create_from v\<rparr>],
              size_hm := size_hm m + 1\<rparr>"
proof (induction n arbitrary: p)
  case 0
  then show ?case by simp
next
  case (Suc n)
  show ?case
  proof (cases "string_empty (val (pairs m ! p))")
    case True
    with Suc.prems show ?thesis by auto
  next
    case False
    with Suc.prems have "insert_loop m k v (advance (unat (capacity m)) p) n = (True, m')"
      by (auto split: if_splits)
    with Suc.IH [of "advance (unat (capacity m)) p"] Suc.prems(1)
    show ?thesis by (simp add: advance_less)
  qed
qed

lemma insert_loop_found:
  assumes "p < unat (capacity m)" "length (pairs m) = unat (capacity m)"
    and "\<not> string_empty v" "insert_loop m k v p n = (True, m')"
  shows "\<exists>q<unat (capacity m). find_loop (pairs m') (unat (capacity m)) k p n = Some q \<and>
           pairs m' ! q = \<lparr>key = k, val = string_create_from v\<rparr>"
  using assms
proof (induction n arbitrary: p)
  case 0
  then show ?case by simp
next
  case (Suc n)
  let ?cap = "unat (capacity m)"
  show ?case
  proof (cases "string_empty (val (pairs m ! p))")
    case True
    with Suc.prems show ?thesis
      by (auto simp: string_create_from_def)
  next
    case False
    with Suc.prems have neq: "key (pairs m ! p) \<noteq> k"
      and rec: "insert_loop m k v (advance ?cap p) n = (True, m')"
      by (auto split: if_splits)
    from Suc.IH [OF _ Suc.prems(2,3) rec] Suc.prems(1)
    obtain q where q: "q < ?cap"
      "find_loop (pairs m') ?cap k (advance ?cap p) n = Some q"
      "pairs m' ! q = \<lparr>key = k, val = string_create_from v\<rparr>"
      by (auto simp: advance_less)
    from insert_loop_True [OF _ rec] Suc.prems(1)
    obtain r where r: "r < ?cap" "string_empty (val (pairs m ! r))"
      "pairs m' = (pairs m)[r := \<lparr>key = k, val = string_create_from v\<rparr>]"
      by (auto simp: advance_less)
    from r(2) False have "r \<noteq> p" by auto
    with r(3) have "pairs m' ! p = pairs m ! p" by simp
    with neq q show ?thesis by auto
  qed
qed

lemma insert_loop_again:
  assumes "p < unat (capacity m)" "length (pairs m) = unat (capacity m)"
    and "\<not> string_empty v" "insert_loop m k v p n = (True, m')"
  shows "insert_loop m' k w p n = (False, m')"
  using assms
proof (induction n arbitrary: p)
  case 0
  then show ?case by simp
next
  case (Suc n)
  let ?cap = "unat (capacity m)"
  from insert_loop_True [OF Suc.prems(1,4)]
  obtain r where r: "r < ?cap" "string_empty (val (pairs m ! r))"
    "m' = m\<lparr>pairs := (pairs m)[r := \<lparr>key = k, val = string_create_from v\<rparr>],
            size_hm := size_hm m + 1\<rparr>"
    by auto
  have cap': "capacity m' = capacity m" using r(3) by simp
  show ?case
  proof (cases "string_empty (val (pairs m ! p))")
    case True
    with Suc.prems show ?thesis
      by (auto simp: string_create_from_def)
  next
    case False
    with Suc.prems have neq: "key (pairs m ! p) \<noteq> k"
      and rec: "insert_loop m k v (advance ?cap p) n = (True, m')"
      by (auto split: if_splits)
    from r(2) False have "r \<noteq> p" by auto
    with r(3) have same: "pairs m' ! p = pairs m ! p" by simp
    have "insert_loop m' k w (advance ?cap p) n = (False, m')"
      using Suc.IH [OF _ Suc.prems(2,3) rec] Suc.prems(1) by (simp add: advance_less)
    with same False neq cap' show ?thesis by simp
  qed
qed

lemma insert_loop_succeeds:
  assumes "p < unat (capacity m)"
    and "\<forall>i<unat (capacity m). \<not> hit k (pairs m ! i)"
    and "\<exists>j<n. string_empty (val (pairs m ! ((p + j) mod unat (capacity m))))"
  shows "fst (insert_loop m k v p n)"
  using assms
proof (induction n arbitrary: p)
  case 0
  then show ?case by simp
next
  case (Suc n)
  let ?cap = "unat (capacity m)"
  show ?case
  proof (cases "string_empty (val (pairs m ! p))")
    case True
    then show ?thesis by simp
  next
    case False
    with Suc.prems(1,2) have neq: "key (pairs m ! p) \<noteq> k"
      by (auto simp: hit_def)
    from Suc.prems(3) obtain j where j: "j < Suc n"
      "string_empty (val (pairs m ! ((p + j) mod ?cap)))" by blast
    have "j \<noteq> 0"
    proof
      assume "j = 0"
      with j(2) Suc.prems(1) have "string_empty (val (pairs m ! p))" by simp
      with False show False by simp
    qed
    then obtain j' where j': "j = Suc j'" by (cases j) auto
    have "(advance ?cap p + j') mod ?cap = (p + j) mod ?cap"
      using Suc.prems(1) j' by (simp add: advance_mod mod_add_left_eq)
    with j j' have "\<exists>i<n. string_empty (val (pairs m ! ((advance ?cap p + i) mod ?cap)))"
      by auto
    with Suc.IH [of "advance ?cap p"] Suc.prems(1,2)
    have "fst (insert_loop m k v (advance ?cap p) n)" by (simp add: advance_less)
    with False neq show ?thesis by simp
  qed
qed

section \<open>Insertion\<close>

lemma insert_True_shape:
  assumes "wf m" "hash_map_insert m k v = (True, m')"
  shows "insert_loop m k v (hash_map_hash m k) (unat (capacity m)) = (True, m')
         \<and> capacity m' = capacity m \<and> length (pairs m') = length (pairs m)
         \<and> size_hm m' = size_hm m + 1"
proof -
  from assms(2) have il: "insert_loop m k v (hash_map_hash m k) (unat (capacity m)) = (True, m')"
    by (simp add: hash_map_insert_def split: if_splits)
  from insert_loop_True [OF hash_less [OF assms(1)] il] show ?thesis using il by auto
qed

lemma insert_find_value:
  assumes "wf m" "\<not> string_empty v" "hash_map_insert m k v = (True, m')"
  shows "find_value m' k = Some v"
proof -
  let ?cap = "unat (capacity m)"
  from insert_True_shape [OF assms(1,3)]
  have il: "insert_loop m k v (hash_map_hash m k) ?cap = (True, m')"
    and cap: "capacity m' = capacity m" by auto
  from assms(1) have len: "length (pairs m) = ?cap" by (simp add: wf_def)
  from insert_loop_found [OF hash_less [OF assms(1)] len assms(2) il]
  obtain q where "find_loop (pairs m') ?cap k (hash_map_hash m k) ?cap = Some q"
    "pairs m' ! q = \<lparr>key = k, val = string_create_from v\<rparr>" by blast
  then show ?thesis
    by (simp add: find_value_def hash_map_find_def hash_map_hash_def cap string_create_from_def)
qed

lemma find_value_contains: "find_value m k = Some v \<Longrightarrow> hash_map_contains m k"
  by (auto simp: find_value_def hash_map_contains_def)

text \<open>
  C1 (amended). Insert then find: for every well-formed map, every key \<open>k\<close> and every
  value \<open>v\<close> that is not the empty string, if \<^verbatim>\<open>hash_map_insert\<close> returns true then
  directly afterwards \<^verbatim>\<open>hash_map_find\<close> returns a value equal to \<open>v\<close> and
  \<^verbatim>\<open>hash_map_contains\<close> returns true.
\<close>

theorem insert_then_find:
  assumes "wf m" "\<not> string_empty v" "hash_map_insert m k v = (True, m')"
  shows "find_value m' k = Some v \<and> hash_map_contains m' k"
  using insert_find_value [OF assms] find_value_contains by blast

theorem insert_then_find_witness:
  "wf (the (hash_map_create_with 4)) \<and> \<not> string_empty ''b''
   \<and> hash_map_insert (the (hash_map_create_with 4)) 4 ''b'' =
       (True, \<lparr>capacity = 4, size_hm = 1,
               pairs = [\<lparr>key = 4, val = ''b''\<rparr>, pair_zero, pair_zero, pair_zero]\<rparr>)
   \<and> find_value \<lparr>capacity = 4, size_hm = 1,
               pairs = [\<lparr>key = 4, val = ''b''\<rparr>, pair_zero, pair_zero, pair_zero]\<rparr> 4 = Some ''b''
   \<and> hash_map_contains \<lparr>capacity = 4, size_hm = 1,
               pairs = [\<lparr>key = 4, val = ''b''\<rparr>, pair_zero, pair_zero, pair_zero]\<rparr> 4"
proof -
  have h1: "wf (the (hash_map_create_with 4))" by code_simp
  have h2: "\<not> string_empty ''b''" by code_simp
  have h3: "hash_map_insert (the (hash_map_create_with 4)) 4 ''b'' =
       (True, \<lparr>capacity = 4, size_hm = 1,
               pairs = [\<lparr>key = 4, val = ''b''\<rparr>, pair_zero, pair_zero, pair_zero]\<rparr>)"
    by code_simp
  from insert_then_find [OF h1 h2 h3] h1 h2 h3 show ?thesis by simp
qed

text \<open>
  The claim as stated, for every value, fails at the empty string: the copy stored in the
  slot is empty, so the slot still counts as free, although the call returned true and
  counted the pair.
\<close>

theorem insert_empty_value_counterexample:
  "fst (hash_map_insert (the (hash_map_create_with 4)) 0 []) \<and>
   hash_map_find (snd (hash_map_insert (the (hash_map_create_with 4)) 0 [])) 0 = None \<and>
   \<not> hash_map_contains (snd (hash_map_insert (the (hash_map_create_with 4)) 0 [])) 0"
  by code_simp

section \<open>Removal\<close>

lemma remove_True_shape:
  assumes "wf m" "hash_map_remove m k = (True, m')"
  shows "\<exists>q<unat (capacity m). hash_map_find m k = Some q \<and> hit k (pairs m ! q) \<and>
           m' = m\<lparr>pairs := (pairs m)[q := (pairs m ! q)\<lparr>val := string_zero\<rparr>],
                   size_hm := size_hm m - 1\<rparr>"
proof (cases "hash_map_find m k")
  case None
  with assms(2) show ?thesis
    by (simp add: hash_map_remove_def hash_map_find_def remove_loop_eq)
next
  case (Some q)
  then have "q < unat (capacity m) \<and> hit k (pairs m ! q)"
    unfolding hash_map_find_def using find_loop_hit [OF hash_less [OF assms(1)]] by blast
  with Some assms(2) show ?thesis
    by (auto simp: hash_map_remove_def hash_map_find_def remove_loop_eq)
qed

text \<open>
  C4. Removal does not break the probe chain for find: in every well-formed map (so in
  every reachable one), after \<^verbatim>\<open>hash_map_remove\<close> of a key \<open>k1\<close> succeeds,
  \<^verbatim>\<open>hash_map_find\<close> of any other key \<open>k2\<close> that was found before returns the same
  slot and the same value as before. This covers two keys with the same home slot where
  \<open>k2\<close> lies later in the probe run of \<open>k1\<close>: the scan of \<^verbatim>\<open>hash_map_find\<close> does not
  stop at a free slot.
\<close>

theorem remove_keeps_probe_chain:
  assumes "wf m" "k1 \<noteq> k2" "hash_map_remove m k1 = (True, m')"
    and "find_value m k2 = Some v2"
  shows "hash_map_find m' k2 = hash_map_find m k2 \<and> find_value m' k2 = Some v2"
proof -
  let ?cap = "unat (capacity m)"
  from remove_True_shape [OF assms(1,3)]
  obtain q where q: "q < ?cap" "hit k1 (pairs m ! q)"
    and m': "m' = m\<lparr>pairs := (pairs m)[q := (pairs m ! q)\<lparr>val := string_zero\<rparr>],
                     size_hm := size_hm m - 1\<rparr>"
    by blast
  from assms(1) have len: "length (pairs m) = ?cap" by (simp add: wf_def)
  have same: "\<forall>i<?cap. hit k2 (pairs m ! i) = hit k2 (pairs m' ! i)"
  proof (intro allI impI)
    fix i assume i: "i < ?cap"
    show "hit k2 (pairs m ! i) = hit k2 (pairs m' ! i)"
    proof (cases "i = q")
      case True
      with q assms(2) len show ?thesis
        by (simp add: m' hit_def string_empty_def string_zero_def)
    next
      case False
      then show ?thesis by (simp add: m')
    qed
  qed
  have find_eq: "hash_map_find m' k2 = hash_map_find m k2"
    using find_loop_cong [OF same hash_less [OF assms(1)], where n = ?cap, symmetric]
    by (simp add: hash_map_find_def hash_map_hash_def m')
  from assms(4) obtain r where r: "hash_map_find m k2 = Some r" "val (pairs m ! r) = v2"
    by (auto simp: find_value_def)
  from r(1) have "hit k2 (pairs m ! r)"
    unfolding hash_map_find_def using find_loop_hit [OF hash_less [OF assms(1)]] by blast
  with q(2) assms(2) have "r \<noteq> q" by (auto simp: hit_def)
  then have "pairs m' ! r = pairs m ! r" by (simp add: m')
  with find_eq r show ?thesis by (simp add: find_value_def)
qed

theorem remove_keeps_probe_chain_witness:
  "wf (run (the (hash_map_create_with 4)) [Insert 0 ''a'', Insert 4 ''b''])
   \<and> (0 :: HashMapKey) \<noteq> 4
   \<and> hash_map_hash (run (the (hash_map_create_with 4)) [Insert 0 ''a'', Insert 4 ''b'']) 0
     = hash_map_hash (run (the (hash_map_create_with 4)) [Insert 0 ''a'', Insert 4 ''b'']) 4
   \<and> fst (hash_map_remove (run (the (hash_map_create_with 4)) [Insert 0 ''a'', Insert 4 ''b'']) 0)
   \<and> find_value (run (the (hash_map_create_with 4)) [Insert 0 ''a'', Insert 4 ''b'']) 4 = Some ''b''
   \<and> find_value (snd (hash_map_remove
         (run (the (hash_map_create_with 4)) [Insert 0 ''a'', Insert 4 ''b'']) 0)) 4 = Some ''b''"
proof -
  let ?m = "run (the (hash_map_create_with 4)) [Insert 0 ''a'', Insert 4 ''b'']"
  have h1: "wf ?m" by code_simp
  have h2: "(0 :: HashMapKey) \<noteq> 4" by simp
  have h3: "hash_map_remove ?m 0 = (True, snd (hash_map_remove ?m 0))" by code_simp
  have h4: "find_value ?m 4 = Some ''b''" by code_simp
  have h5: "hash_map_hash ?m 0 = hash_map_hash ?m 4" by code_simp
  have h6: "fst (hash_map_remove ?m 0)" by code_simp
  from remove_keeps_probe_chain [OF h1 h2 h3 h4] h1 h2 h4 h5 h6 show ?thesis by simp
qed

text \<open>
  C7 (amended). On every successful removal \<^verbatim>\<open>hash_map_remove\<close> resets the value of the
  matched slot (the first slot on the probe run that holds the key with a non-empty
  value) to the empty string and leaves the slot's key as it is; no other slot of the map
  is modified, the capacity is unchanged and the size is decremented.
\<close>

theorem remove_resets_value_only:
  assumes "wf m" "hash_map_remove m k = (True, m')"
  shows "\<exists>q<unat (capacity m). hash_map_find m k = Some q \<and>
           pairs m' = (pairs m)[q := \<lparr>key = k, val = string_zero\<rparr>] \<and>
           key (pairs m' ! q) = key (pairs m ! q) \<and> string_empty (val (pairs m' ! q)) \<and>
           capacity m' = capacity m \<and> size_hm m' = size_hm m - 1"
proof -
  from remove_True_shape [OF assms]
  obtain q where q: "q < unat (capacity m)" "hash_map_find m k = Some q" "hit k (pairs m ! q)"
    and m': "m' = m\<lparr>pairs := (pairs m)[q := (pairs m ! q)\<lparr>val := string_zero\<rparr>],
                     size_hm := size_hm m - 1\<rparr>"
    by blast
  from assms(1) q(1) have len: "q < length (pairs m)" by (simp add: wf_def)
  from q(3) have upd: "(pairs m ! q)\<lparr>val := string_zero\<rparr> = \<lparr>key = k, val = string_zero\<rparr>"
    by (cases "pairs m ! q") (simp add: hit_def)
  from q(3) have k: "key (pairs m ! q) = k" by (simp add: hit_def)
  have "pairs m' = (pairs m)[q := \<lparr>key = k, val = string_zero\<rparr>]"
    by (simp add: m' upd)
  moreover from this len k have "key (pairs m' ! q) = key (pairs m ! q)" by simp
  moreover from \<open>pairs m' = _\<close> len have "string_empty (val (pairs m' ! q))"
    by (simp add: string_empty_def string_zero_def)
  moreover have "capacity m' = capacity m \<and> size_hm m' = size_hm m - 1" by (simp add: m')
  ultimately show ?thesis using q(1,2) by blast
qed

theorem remove_resets_value_only_witness:
  "wf (run (the (hash_map_create_with 4)) [Insert 5 ''a'', Insert 2 ''b''])
   \<and> hash_map_remove (run (the (hash_map_create_with 4)) [Insert 5 ''a'', Insert 2 ''b'']) 5 =
       (True, \<lparr>capacity = 4, size_hm = 1,
               pairs = [pair_zero, \<lparr>key = 5, val = []\<rparr>, \<lparr>key = 2, val = ''b''\<rparr>, pair_zero]\<rparr>)
   \<and> (\<exists>q<4. pairs \<lparr>capacity = 4, size_hm = 1,
               pairs = [pair_zero, \<lparr>key = 5, val = []\<rparr>, \<lparr>key = 2, val = ''b''\<rparr>, pair_zero]\<rparr>
        = (pairs (run (the (hash_map_create_with 4)) [Insert 5 ''a'', Insert 2 ''b'']))
             [q := \<lparr>key = 5, val = string_zero\<rparr>])"
proof -
  let ?m = "run (the (hash_map_create_with 4)) [Insert 5 ''a'', Insert 2 ''b'']"
  have h1: "wf ?m" by code_simp
  have h2: "hash_map_remove ?m 5 =
       (True, \<lparr>capacity = 4, size_hm = 1,
               pairs = [pair_zero, \<lparr>key = 5, val = []\<rparr>, \<lparr>key = 2, val = ''b''\<rparr>, pair_zero]\<rparr>)"
    by code_simp
  have h3: "unat (capacity ?m) = 4" by code_simp
  from remove_resets_value_only [OF h1 h2] h1 h2 show ?thesis
    unfolding h3 by auto
qed

text \<open>
  The key of the matched slot is not reset to zero: after inserting key 5 and removing it
  again, slot 1 still holds key 5.
\<close>

theorem remove_keeps_key_counterexample:
  "fst (hash_map_remove (run (the (hash_map_create_with 4)) [Insert 5 ''a'']) 5) \<and>
   key (pairs (snd (hash_map_remove (run (the (hash_map_create_with 4)) [Insert 5 ''a'']) 5)) ! 1)
     = 5 \<and>
   key (pairs (snd (hash_map_remove (run (the (hash_map_create_with 4)) [Insert 5 ''a'']) 5)) ! 1)
     \<noteq> 0 \<and>
   string_empty
     (val (pairs (snd (hash_map_remove (run (the (hash_map_create_with 4)) [Insert 5 ''a'']) 5)) ! 1))"
  by code_simp

text \<open>
  C2, at the failing input. After insert 0, insert 4, remove 0 and insert 4 again, key 4
  sits in two slots; \<^verbatim>\<open>hash_map_remove\<close> of key 4 returns true and clears the first,
  and \<^verbatim>\<open>hash_map_find\<close> still finds key 4 in the second.
\<close>

theorem remove_then_find_with_duplicate:
  "fst (hash_map_remove (run (the (hash_map_create_with 4))
          [Insert 0 ''a'', Insert 4 ''b'', Remove 0, Insert 4 ''c'']) 4) \<and>
   find_value (snd (hash_map_remove (run (the (hash_map_create_with 4))
          [Insert 0 ''a'', Insert 4 ''b'', Remove 0, Insert 4 ''c'']) 4)) 4 = Some ''b'' \<and>
   hash_map_contains (snd (hash_map_remove (run (the (hash_map_create_with 4))
          [Insert 0 ''a'', Insert 4 ''b'', Remove 0, Insert 4 ''c'']) 4)) 4"
  by code_simp

text \<open>
  C9. Key uniqueness is not guaranteed after removals: on a map of capacity 4, after
  insert of key 0, insert of key 4 (which collides and goes to slot 1) and remove of key
  0, \<^verbatim>\<open>hash_map_contains\<close> of key 4 is true and \<^verbatim>\<open>hash_map_insert\<close> of key 4 still
  returns true; afterwards the two occupied slots 0 and 1 both hold key 4.
\<close>

theorem insert_duplicates_key_after_remove:
  "hash_map_contains
     (run (the (hash_map_create_with 4)) [Insert 0 ''a'', Insert 4 ''b'', Remove 0]) 4 \<and>
   hash_map_insert
     (run (the (hash_map_create_with 4)) [Insert 0 ''a'', Insert 4 ''b'', Remove 0]) 4 ''c'' =
     (True, \<lparr>capacity = 4, size_hm = 2,
             pairs = [\<lparr>key = 4, val = ''c''\<rparr>, \<lparr>key = 4, val = ''b''\<rparr>, pair_zero, pair_zero]\<rparr>) \<and>
   occupied \<lparr>capacity = 4, size_hm = 2,
             pairs = [\<lparr>key = 4, val = ''c''\<rparr>, \<lparr>key = 4, val = ''b''\<rparr>, pair_zero, pair_zero]\<rparr> 0 \<and>
   occupied \<lparr>capacity = 4, size_hm = 2,
             pairs = [\<lparr>key = 4, val = ''c''\<rparr>, \<lparr>key = 4, val = ''b''\<rparr>, pair_zero, pair_zero]\<rparr> 1"
  by code_simp

section \<open>The size counter\<close>

lemma length_filter_update:
  "q < length ps \<Longrightarrow>
   length (filter P (ps[q := x])) + (if P (ps ! q) then 1 else 0) =
   length (filter P ps) + (if P x then 1 else 0)"
proof (induction ps arbitrary: q)
  case Nil
  then show ?case by simp
next
  case (Cons a ps)
  show ?case
  proof (cases q)
    case 0
    then show ?thesis by simp
  next
    case (Suc r)
    with Cons.prems have "r < length ps" by simp
    from Cons.IH [OF this] Suc show ?thesis by simp
  qed
qed

lemma quotient_ge_one: "0 < c \<Longrightarrow> (1 \<le> real s / real c) = (c \<le> s)"
  by (simp add: le_divide_eq)

lemma load_factor_full:
  "0 < unat (capacity m) \<Longrightarrow>
   (1 \<le> hash_map_load_factor m) = (unat (capacity m) \<le> unat (size_hm m))"
  unfolding hash_map_load_factor_def by (rule quotient_ge_one)

lemma insert_False: "hash_map_insert m k v = (False, m') \<Longrightarrow> m' = m"
  by (auto simp: hash_map_insert_def split: if_splits dest: insert_loop_False)

lemma unat_succ_below:
  fixes s c :: "64 word"
  assumes "unat s < unat c"
  shows "unat (s + 1) = unat s + 1"
proof -
  have "unat c < 2 ^ LENGTH(64)" by (rule unsigned_less)
  with assms have "unat s + unat (1 :: 64 word) < 2 ^ LENGTH(64)" by simp
  then have "unat (s + 1) = unat s + unat (1 :: 64 word)" by (simp only: unat_add_lem)
  then show ?thesis by simp
qed

lemma insert_True_size:
  assumes "size_inv m" "hash_map_insert m k v = (True, m')"
  shows "size_inv m' \<and> unat (size_hm m') = unat (size_hm m) + 1 \<and>
         count_occupied m' = count_occupied m + (if string_empty v then 0 else 1)"
proof -
  let ?cap = "unat (capacity m)"
  let ?P = "\<lambda>pr. \<not> string_empty (val pr)"
  from assms(1) have wf: "wf m" and le: "count_occupied m \<le> unat (size_hm m)"
    by (simp_all add: size_inv_def)
  from wf have cap: "0 < ?cap" and len: "length (pairs m) = ?cap" by (simp_all add: wf_def)
  from assms(2) have "\<not> 1 \<le> hash_map_load_factor m"
    by (auto simp: hash_map_insert_def split: if_splits)
  with cap have lt: "unat (size_hm m) < ?cap" by (simp add: load_factor_full)
  from insert_True_shape [OF wf assms(2)]
  have il: "insert_loop m k v (hash_map_hash m k) ?cap = (True, m')" by simp
  from insert_loop_True [OF hash_less [OF wf] il]
  obtain q where q: "q < ?cap" "string_empty (val (pairs m ! q))"
    and m': "m' = m\<lparr>pairs := (pairs m)[q := \<lparr>key = k, val = string_create_from v\<rparr>],
                     size_hm := size_hm m + 1\<rparr>"
    by blast
  have sz: "unat (size_hm m') = unat (size_hm m) + 1"
    using unat_succ_below [OF lt] by (simp add: m')
  from length_filter_update [of q "pairs m" ?P "\<lparr>key = k, val = string_create_from v\<rparr>"] q len
  have cnt: "count_occupied m' = count_occupied m + (if string_empty v then 0 else 1)"
    by (simp add: count_occupied_def m' string_create_from_def)
  have "wf m'" using wf by (simp add: wf_def m')
  moreover have "capacity m' = capacity m" by (simp add: m')
  ultimately show ?thesis using sz cnt le lt by (simp add: size_inv_def)
qed

lemma assign_size:
  assumes "size_inv m" "hash_map_find m k = Some q"
  shows "size_inv (m\<lparr>pairs := (pairs m)[q := (pairs m ! q)\<lparr>val := string_create_from v\<rparr>]\<rparr>)
         \<and> count_occupied (m\<lparr>pairs := (pairs m)[q := (pairs m ! q)\<lparr>val := string_create_from v\<rparr>]\<rparr>) + 1
           = count_occupied m + (if string_empty v then 0 else 1)"
proof -
  let ?P = "\<lambda>pr. \<not> string_empty (val pr)"
  let ?m' = "m\<lparr>pairs := (pairs m)[q := (pairs m ! q)\<lparr>val := string_create_from v\<rparr>]\<rparr>"
  from assms(1) have wf: "wf m" and le: "count_occupied m \<le> unat (size_hm m)"
    and le2: "unat (size_hm m) \<le> unat (capacity m)"
    by (simp_all add: size_inv_def)
  from assms(2) have q: "q < unat (capacity m)" "hit k (pairs m ! q)"
    unfolding hash_map_find_def using find_loop_hit [OF hash_less [OF wf]] by blast+
  from wf q have len: "q < length (pairs m)" by (simp add: wf_def)
  from length_filter_update [OF len, of ?P "(pairs m ! q)\<lparr>val := string_create_from v\<rparr>"] q(2)
  have cnt: "count_occupied ?m' + 1 = count_occupied m + (if string_empty v then 0 else 1)"
    by (simp add: count_occupied_def hit_def string_create_from_def)
  have "wf ?m'" using wf by (simp add: wf_def)
  with cnt le le2 show ?thesis by (simp add: size_inv_def split: if_splits)
qed

lemma remove_True_size:
  assumes "size_inv m" "hash_map_remove m k = (True, m')"
  shows "size_inv m' \<and> unat (size_hm m') + 1 = unat (size_hm m) \<and>
         count_occupied m' + 1 = count_occupied m"
proof -
  let ?P = "\<lambda>pr. \<not> string_empty (val pr)"
  from assms(1) have wf: "wf m" and le: "count_occupied m \<le> unat (size_hm m)"
    and le2: "unat (size_hm m) \<le> unat (capacity m)"
    by (simp_all add: size_inv_def)
  from remove_True_shape [OF wf assms(2)]
  obtain q where q: "q < unat (capacity m)" "hit k (pairs m ! q)"
    and m': "m' = m\<lparr>pairs := (pairs m)[q := (pairs m ! q)\<lparr>val := string_zero\<rparr>],
                     size_hm := size_hm m - 1\<rparr>"
    by blast
  from wf q have len: "q < length (pairs m)" by (simp add: wf_def)
  from length_filter_update [OF len, of ?P "(pairs m ! q)\<lparr>val := string_zero\<rparr>"] q(2)
  have cnt: "count_occupied m' + 1 = count_occupied m"
    by (simp add: count_occupied_def hit_def m' string_zero_def string_empty_def)
  with le have pos: "0 < unat (size_hm m)" by simp
  then have "size_hm m \<noteq> 0" by (simp add: unat_gt_0)
  then have "unat (size_hm m - 1) = unat (size_hm m) - 1" by (rule unat_minus_one)
  with pos have sz: "unat (size_hm m') + 1 = unat (size_hm m)" by (simp add: m')
  have "wf m'" using wf by (simp add: wf_def m')
  moreover have "capacity m' = capacity m" by (simp add: m')
  ultimately show ?thesis using sz cnt le le2 by (simp add: size_inv_def)
qed

lemma remove_False: "hash_map_remove m k = (False, m') \<Longrightarrow> m' = m"
  by (auto simp: hash_map_remove_def remove_loop_eq split: option.splits)

lemma clear_loop_replicate:
  "i + n = length ps \<Longrightarrow>
   clear_loop ps i n = take i ps @ replicate n \<lparr>key = 0, val = string_zero\<rparr>"
proof (induction n arbitrary: ps i)
  case 0
  then show ?case by simp
next
  case (Suc n)
  let ?z = "\<lparr>key = 0, val = string_zero\<rparr>"
  from Suc.prems have i: "i < length ps" by simp
  have "clear_loop (ps[i := ?z]) (i + 1) n = take (i + 1) (ps[i := ?z]) @ replicate n ?z"
    using Suc.prems by (intro Suc.IH) simp
  also have "take (i + 1) (ps[i := ?z]) = take i ps @ [?z]"
    using i by (simp add: take_Suc_conv_app_nth)
  finally show ?case by (simp add: replicate_app_Cons_same)
qed

lemma clear_pairs:
  "wf m \<Longrightarrow> pairs (hash_map_clear m) = replicate (unat (capacity m)) pair_zero"
  using clear_loop_replicate [of 0 "unat (capacity m)" "pairs m"]
  by (simp add: hash_map_clear_def wf_def pair_zero_def)

lemma count_replicate_zero:
  "length (filter (\<lambda>pr. \<not> string_empty (val pr)) (replicate n pair_zero)) = 0"
  by (simp add: pair_zero_def string_zero_def string_empty_def)

lemma clear_size:
  assumes "wf m"
  shows "size_inv (hash_map_clear m) \<and> count_occupied (hash_map_clear m) = 0
         \<and> size_hm (hash_map_clear m) = 0"
proof -
  have c: "count_occupied (hash_map_clear m) = 0"
    unfolding count_occupied_def clear_pairs [OF assms] by (rule count_replicate_zero)
  have s: "size_hm (hash_map_clear m) = 0" "capacity (hash_map_clear m) = capacity m"
    by (simp_all add: hash_map_clear_def)
  have "wf (hash_map_clear m)"
    using assms clear_pairs [OF assms] by (simp add: wf_def s)
  with c s show ?thesis by (simp add: size_inv_def)
qed

lemma create_size:
  assumes "hash_map_create_with c = Some m"
  shows "size_inv m \<and> count_occupied m = 0 \<and> size_hm m = 0 \<and> capacity m = c"
proof -
  from assms have c: "c \<noteq> 0"
    and m: "m = \<lparr>capacity = c, size_hm = 0, pairs = replicate (unat c) pair_zero\<rparr>"
    by (auto simp: hash_map_create_with_def split: if_splits)
  from c have "0 < unat c" by (simp add: unat_gt_0)
  then show ?thesis
    by (simp add: m size_inv_def wf_def count_occupied_def count_replicate_zero)
qed

lemma apply_operation_size:
  assumes "size_inv m"
  shows "size_inv (apply_operation m x) \<and>
         (operation_value x \<noteq> Some [] \<longrightarrow> count_occupied m = unat (size_hm m) \<longrightarrow>
            count_occupied (apply_operation m x) = unat (size_hm (apply_operation m x)))"
proof (cases x)
  case (Insert k v)
  show ?thesis
  proof (cases "hash_map_insert m k v")
    case (Pair b m')
    show ?thesis
    proof (cases b)
      case True
      with Pair insert_True_size [OF assms, of k v m'] show ?thesis
        by (simp add: Insert string_empty_def)
    next
      case False
      with Pair insert_False [of m k v m'] assms show ?thesis by (simp add: Insert)
    qed
  qed
next
  case (InsertOrAssign k v)
  show ?thesis
  proof (cases "hash_map_find m k")
    case None
    then have eq: "hash_map_insert_or_assign m k v = hash_map_insert m k v"
      by (simp add: hash_map_insert_or_assign_def)
    show ?thesis
    proof (cases "hash_map_insert m k v")
      case (Pair b m')
      show ?thesis
      proof (cases b)
        case True
        with Pair insert_True_size [OF assms, of k v m'] show ?thesis
          by (simp add: InsertOrAssign eq string_empty_def)
      next
        case False
        with Pair insert_False [of m k v m'] assms show ?thesis
          by (simp add: InsertOrAssign eq)
      qed
    qed
  next
    case (Some q)
    with assign_size [OF assms Some, of v] show ?thesis
      by (auto simp: InsertOrAssign hash_map_insert_or_assign_def string_empty_def)
  qed
next
  case (Remove k)
  show ?thesis
  proof (cases "hash_map_remove m k")
    case (Pair b m')
    show ?thesis
    proof (cases b)
      case True
      with Pair remove_True_size [OF assms, of k m'] show ?thesis
        by (auto simp: Remove)
    next
      case False
      with Pair remove_False [of m k m'] assms show ?thesis by (simp add: Remove)
    qed
  qed
next
  case Clear
  from assms have "wf m" by (simp add: size_inv_def)
  from clear_size [OF this] show ?thesis by (simp add: Clear)
qed

lemma run_size:
  "size_inv m \<Longrightarrow>
   size_inv (run m ops) \<and>
   ((\<forall>x\<in>set ops. operation_value x \<noteq> Some []) \<longrightarrow> count_occupied m = unat (size_hm m) \<longrightarrow>
      count_occupied (run m ops) = unat (size_hm (run m ops)))"
proof (induction ops arbitrary: m)
  case Nil
  then show ?case by simp
next
  case (Cons x ops)
  from apply_operation_size [OF Cons.prems, of x] Cons.IH [of "apply_operation m x"]
  show ?case by simp
qed

lemma insert_loop_capacity: "capacity (snd (insert_loop m k v p n)) = capacity m"
  by (induction n arbitrary: p) simp_all

lemma apply_operation_capacity: "capacity (apply_operation m x) = capacity m"
proof (cases x)
  case (Insert k v)
  then show ?thesis by (simp add: hash_map_insert_def insert_loop_capacity)
next
  case (InsertOrAssign k v)
  then show ?thesis
    by (simp add: hash_map_insert_or_assign_def hash_map_insert_def insert_loop_capacity
        split: option.splits)
next
  case (Remove k)
  then show ?thesis
    by (simp add: hash_map_remove_def remove_loop_eq split: option.splits)
next
  case Clear
  then show ?thesis by (simp add: hash_map_clear_def)
qed

lemma run_capacity: "capacity (run m ops) = capacity m"
  by (induction ops arbitrary: m) (simp_all add: apply_operation_capacity)

section \<open>The full-container rule\<close>

lemma free_slot_exists:
  assumes "count_occupied m < length (pairs m)"
  shows "\<exists>i<length (pairs m). string_empty (val (pairs m ! i))"
proof (rule ccontr)
  assume "\<not> ?thesis"
  then have "\<forall>x\<in>set (pairs m). \<not> string_empty (val x)"
    by (auto simp: in_set_conv_nth)
  then have "filter (\<lambda>pr. \<not> string_empty (val pr)) (pairs m) = pairs m"
    by (simp add: filter_id_conv)
  with assms show False by (simp add: count_occupied_def)
qed

lemma insert_absent_succeeds:
  assumes "size_inv m" "size_hm m \<noteq> capacity m" "\<not> hash_map_contains m k"
  shows "fst (hash_map_insert m k v) \<and> size_hm (snd (hash_map_insert m k v)) = size_hm m + 1"
proof -
  let ?cap = "unat (capacity m)"
  let ?p = "hash_map_hash m k"
  from assms(1) have wf: "wf m" and le: "count_occupied m \<le> unat (size_hm m)"
    and le2: "unat (size_hm m) \<le> ?cap"
    by (simp_all add: size_inv_def)
  from wf have cap: "0 < ?cap" and len: "length (pairs m) = ?cap" by (simp_all add: wf_def)
  from assms(2) have "unat (size_hm m) \<noteq> ?cap" by (simp add: word_unat_eq_iff)
  with le2 have lt: "unat (size_hm m) < ?cap" by simp
  then have nf: "\<not> 1 \<le> hash_map_load_factor m" using cap by (simp add: load_factor_full)
  from le lt len have "count_occupied m < length (pairs m)" by simp
  from free_slot_exists [OF this] len
  obtain i where i: "i < ?cap" "string_empty (val (pairs m ! i))" by auto
  from probe_surj [OF hash_less [OF wf] i(1)]
  obtain j where j: "j < ?cap" "(?p + j) mod ?cap = i" by blast
  with i have ex: "\<exists>j<?cap. string_empty (val (pairs m ! ((?p + j) mod ?cap)))" by auto
  from assms(3) have nohit: "\<forall>i<?cap. \<not> hit k (pairs m ! i)"
    by (simp add: contains_iff [OF wf])
  from insert_loop_succeeds [OF hash_less [OF wf] nohit ex, of v] nf
  have ok: "fst (hash_map_insert m k v)" by (simp add: hash_map_insert_def)
  then have "hash_map_insert m k v = (True, snd (hash_map_insert m k v))"
    by (cases "hash_map_insert m k v") simp
  from insert_True_shape [OF wf this] ok show ?thesis by simp
qed

lemma all_occupied:
  assumes "wf m" "count_occupied m = unat (capacity m)"
  shows "\<forall>i<unat (capacity m). occupied m i"
proof -
  let ?P = "\<lambda>pr. \<not> string_empty (val pr)"
  from assms have "length (filter ?P (pairs m)) = length (pairs m)"
    by (simp add: count_occupied_def wf_def)
  with sum_length_filter_compl [of ?P "pairs m"]
  have "filter (\<lambda>pr. \<not> ?P pr) (pairs m) = []" by simp
  then have "\<forall>x\<in>set (pairs m). ?P x" by (simp add: filter_empty_conv)
  with assms(1) show ?thesis by (simp add: occupied_def wf_def)
qed

lemma insert_absent_result:
  assumes "size_inv m" "size_hm m \<noteq> capacity m" "\<not> hash_map_contains m k"
  shows "\<exists>q<unat (capacity m). \<not> occupied m q \<and>
           hash_map_insert m k v =
             (True, m\<lparr>pairs := (pairs m)[q := \<lparr>key = k, val = v\<rparr>],
                      size_hm := size_hm m + 1\<rparr>)"
proof -
  from assms(1) have wf: "wf m" by (simp add: size_inv_def)
  from insert_absent_succeeds [OF assms, of v]
  have "hash_map_insert m k v = (True, snd (hash_map_insert m k v))"
    by (cases "hash_map_insert m k v") simp
  from insert_True_shape [OF wf this]
  have "insert_loop m k v (hash_map_hash m k) (unat (capacity m))
          = (True, snd (hash_map_insert m k v))" by simp
  from insert_loop_True [OF hash_less [OF wf] this]
    \<open>hash_map_insert m k v = (True, snd (hash_map_insert m k v))\<close>
  show ?thesis by (auto simp: occupied_def string_create_from_def)
qed

text \<open>
  C3 (amended). \<^verbatim>\<open>hash_map_insert\<close> refuses, returning false without mutating the map,
  whenever the load factor is at least 1.0, which in a reachable map means that the size
  equals the capacity. Below that the guard does not block: in every reachable map whose
  size differs from the capacity, an insert of a key that \<^verbatim>\<open>hash_map_contains\<close> does
  not report succeeds, stores the pair in a slot that was free and increments the size.
  So for a map of capacity \<open>C\<close>, after \<open>C - 1\<close> successful inserts of non-empty values
  the \<open>C\<close>th insert of an absent key with a non-empty value succeeds and fills the last
  free slot: afterwards the size is \<open>C\<close> and every slot is occupied. Only an insert
  attempted at size \<open>C\<close> is blocked.
\<close>

theorem insert_full_rule:
  assumes "hash_map_create_with c = Some m0" "m = run m0 ops"
  shows "(1 \<le> hash_map_load_factor m \<longrightarrow> hash_map_insert m k v = (False, m)) \<and>
         ((1 \<le> hash_map_load_factor m) = (size_hm m = capacity m)) \<and>
         (size_hm m \<noteq> capacity m \<and> \<not> hash_map_contains m k \<longrightarrow>
            (\<exists>q<unat (capacity m). \<not> occupied m q \<and>
               hash_map_insert m k v =
                 (True, m\<lparr>pairs := (pairs m)[q := \<lparr>key = k, val = v\<rparr>],
                          size_hm := size_hm m + 1\<rparr>))) \<and>
         (unat (size_hm m) + 1 = unat (capacity m) \<and> \<not> hash_map_contains m k \<and>
          \<not> string_empty v \<and> (\<forall>x\<in>set ops. operation_value x \<noteq> Some []) \<longrightarrow>
            fst (hash_map_insert m k v) \<and>
            size_hm (snd (hash_map_insert m k v)) = capacity m \<and>
            (\<forall>i<unat (capacity m). occupied (snd (hash_map_insert m k v)) i))"
proof -
  from create_size [OF assms(1)] have inv0: "size_inv m0"
    and cnt0: "count_occupied m0 = unat (size_hm m0)" by simp_all
  with run_size [of m0 ops] assms(2) have inv: "size_inv m"
    and cnt: "(\<forall>x\<in>set ops. operation_value x \<noteq> Some []) \<longrightarrow> count_occupied m = unat (size_hm m)"
    by simp_all
  then have cap: "0 < unat (capacity m)" and le: "unat (size_hm m) \<le> unat (capacity m)"
    by (simp_all add: size_inv_def wf_def)
  have a: "1 \<le> hash_map_load_factor m \<longrightarrow> hash_map_insert m k v = (False, m)"
    by (simp add: hash_map_insert_def)
  have b: "(1 \<le> hash_map_load_factor m) = (size_hm m = capacity m)"
    using le by (auto simp: load_factor_full [OF cap] word_unat_eq_iff)
  have c: "size_hm m \<noteq> capacity m \<and> \<not> hash_map_contains m k \<longrightarrow>
            (\<exists>q<unat (capacity m). \<not> occupied m q \<and>
               hash_map_insert m k v =
                 (True, m\<lparr>pairs := (pairs m)[q := \<lparr>key = k, val = v\<rparr>],
                          size_hm := size_hm m + 1\<rparr>))"
    using insert_absent_result [OF inv] by blast
  have d: "unat (size_hm m) + 1 = unat (capacity m) \<and> \<not> hash_map_contains m k \<and>
          \<not> string_empty v \<and> (\<forall>x\<in>set ops. operation_value x \<noteq> Some []) \<longrightarrow>
            fst (hash_map_insert m k v) \<and>
            size_hm (snd (hash_map_insert m k v)) = capacity m \<and>
            (\<forall>i<unat (capacity m). occupied (snd (hash_map_insert m k v)) i)"
  proof (intro impI)
    let ?m' = "snd (hash_map_insert m k v)"
    assume h: "unat (size_hm m) + 1 = unat (capacity m) \<and> \<not> hash_map_contains m k \<and>
          \<not> string_empty v \<and> (\<forall>x\<in>set ops. operation_value x \<noteq> Some [])"
    then have ne: "size_hm m \<noteq> capacity m" by auto
    from h cnt have cm: "count_occupied m = unat (size_hm m)" by simp
    from insert_absent_succeeds [OF inv ne, of k v] h
    have ok: "fst (hash_map_insert m k v)" by simp
    then have eq: "hash_map_insert m k v = (True, ?m')"
      by (cases "hash_map_insert m k v") simp
    from insert_True_size [OF inv eq] h cm
    have inv': "size_inv ?m'" and s': "unat (size_hm ?m') = unat (capacity m)"
      and c': "count_occupied ?m' = unat (capacity m)" by simp_all
    from insert_True_shape [OF _ eq] inv have cap': "capacity ?m' = capacity m"
      by (simp add: size_inv_def)
    from s' have "size_hm ?m' = capacity m" by (simp add: word_unat_eq_iff)
    moreover from all_occupied [of ?m'] inv' c' cap'
    have "\<forall>i<unat (capacity m). occupied ?m' i" by (simp add: size_inv_def)
    ultimately show "fst (hash_map_insert m k v) \<and> size_hm ?m' = capacity m \<and>
            (\<forall>i<unat (capacity m). occupied ?m' i)" using ok by simp
  qed
  from a b c d show ?thesis by blast
qed

theorem insert_full_rule_witness:
  "hash_map_create_with 2 = Some \<lparr>capacity = 2, size_hm = 0, pairs = [pair_zero, pair_zero]\<rparr>
   \<and> unat (size_hm (run \<lparr>capacity = 2, size_hm = 0, pairs = [pair_zero, pair_zero]\<rparr>
        [Insert 0 ''a''])) + 1
       = unat (capacity (run \<lparr>capacity = 2, size_hm = 0, pairs = [pair_zero, pair_zero]\<rparr>
        [Insert 0 ''a'']))
   \<and> \<not> hash_map_contains
        (run \<lparr>capacity = 2, size_hm = 0, pairs = [pair_zero, pair_zero]\<rparr> [Insert 0 ''a'']) 1
   \<and> \<not> string_empty ''b''
   \<and> list_all (\<lambda>x. operation_value x \<noteq> Some []) [Insert 0 ''a'']
   \<and> fst (hash_map_insert
        (run \<lparr>capacity = 2, size_hm = 0, pairs = [pair_zero, pair_zero]\<rparr> [Insert 0 ''a'']) 1 ''b'')
   \<and> occupied (snd (hash_map_insert
        (run \<lparr>capacity = 2, size_hm = 0, pairs = [pair_zero, pair_zero]\<rparr> [Insert 0 ''a''])
          1 ''b'')) 0
   \<and> occupied (snd (hash_map_insert
        (run \<lparr>capacity = 2, size_hm = 0, pairs = [pair_zero, pair_zero]\<rparr> [Insert 0 ''a''])
          1 ''b'')) 1
   \<and> 1 \<le> hash_map_load_factor
        (run \<lparr>capacity = 2, size_hm = 0, pairs = [pair_zero, pair_zero]\<rparr>
           [Insert 0 ''a'', Insert 1 ''b''])
   \<and> hash_map_insert
        (run \<lparr>capacity = 2, size_hm = 0, pairs = [pair_zero, pair_zero]\<rparr>
           [Insert 0 ''a'', Insert 1 ''b'']) 2 ''c''
      = (False, run \<lparr>capacity = 2, size_hm = 0, pairs = [pair_zero, pair_zero]\<rparr>
           [Insert 0 ''a'', Insert 1 ''b''])"
proof -
  let ?m0 = "\<lparr>capacity = 2, size_hm = 0, pairs = [pair_zero, pair_zero]\<rparr>"
  let ?st = "run ?m0 [Insert 0 ''a'']"
  have h1: "hash_map_create_with 2 = Some ?m0" by code_simp
  have h2: "unat (size_hm ?st) + 1 = unat (capacity ?st)" by code_simp
  have h3: "\<not> hash_map_contains ?st 1" by code_simp
  have h4: "size_hm (run ?m0 [Insert 0 ''a'', Insert 1 ''b''])
            = capacity (run ?m0 [Insert 0 ''a'', Insert 1 ''b''])" by code_simp
  have h5: "\<not> string_empty ''b''" by code_simp
  have h6: "\<forall>x\<in>set [Insert 0 ''a'']. operation_value x \<noteq> Some []" by simp
  have h7: "unat (capacity ?st) = 2" by code_simp
  from insert_full_rule [OF h1 refl, of "[Insert 0 ''a'']" 1 "''b''"] h2 h3 h5 h6
  have p1: "fst (hash_map_insert ?st 1 ''b'')"
    and p2: "\<forall>i<unat (capacity ?st). occupied (snd (hash_map_insert ?st 1 ''b'')) i"
    by blast+
  from p2 have p3: "occupied (snd (hash_map_insert ?st 1 ''b'')) 0"
    "occupied (snd (hash_map_insert ?st 1 ''b'')) 1" unfolding h7 by simp_all
  from insert_full_rule [OF h1 refl, of "[Insert 0 ''a'', Insert 1 ''b'']" 2 "''c''"] h4
  have p4: "1 \<le> hash_map_load_factor (run ?m0 [Insert 0 ''a'', Insert 1 ''b''])"
    and p5: "hash_map_insert (run ?m0 [Insert 0 ''a'', Insert 1 ''b'']) 2 ''c''
      = (False, run ?m0 [Insert 0 ''a'', Insert 1 ''b''])" by blast+
  have h6': "list_all (\<lambda>x. operation_value x \<noteq> Some []) [Insert 0 ''a'']" by simp
  from h1 h2 h3 h5 h6' p1 p3 p4 p5 show ?thesis by blast
qed

text \<open>
  The last slot can be filled: in a map of capacity 2, after one successful insert the
  second insert succeeds too and brings the size to the capacity.
\<close>

theorem last_slot_filled_counterexample:
  "fst (hash_map_insert (the (hash_map_create_with 2)) 0 ''a'') \<and>
   fst (hash_map_insert (snd (hash_map_insert (the (hash_map_create_with 2)) 0 ''a'')) 1 ''b'') \<and>
   size_hm (snd (hash_map_insert
       (snd (hash_map_insert (the (hash_map_create_with 2)) 0 ''a'')) 1 ''b'')) = 2 \<and>
   \<not> string_empty (val (pairs (snd (hash_map_insert
       (snd (hash_map_insert (the (hash_map_create_with 2)) 0 ''a'')) 1 ''b'')) ! 1))"
  by code_simp

text \<open>
  C10 (amended). In every state reachable from a freshly created map by any sequence of
  insert, insert_or_assign, remove and clear calls, the number of slots whose value is
  non-empty is at most the size field, and the size field is at most the capacity. If no
  call of the sequence passed the empty string as value, the size field equals the number
  of slots whose value is non-empty.
\<close>

theorem size_counts_occupied:
  assumes "hash_map_create_with c = Some m0"
  shows "count_occupied (run m0 ops) \<le> unat (size_hm (run m0 ops)) \<and>
         size_hm (run m0 ops) \<le> capacity (run m0 ops) \<and>
         ((\<forall>x\<in>set ops. operation_value x \<noteq> Some []) \<longrightarrow>
            unat (size_hm (run m0 ops)) = count_occupied (run m0 ops))"
proof -
  from create_size [OF assms] have "size_inv m0" "count_occupied m0 = unat (size_hm m0)"
    by simp_all
  with run_size [of m0 ops] show ?thesis
    by (simp add: size_inv_def word_le_nat_alt)
qed

theorem size_counts_occupied_witness:
  "hash_map_create_with 4 = Some (the (hash_map_create_with 4))
   \<and> list_all (\<lambda>x. operation_value x \<noteq> Some [])
       [Insert 0 ''a'', Insert 4 ''b'', Remove 0, InsertOrAssign 4 ''c'', Insert 7 ''d'']
   \<and> unat (size_hm (run (the (hash_map_create_with 4))
       [Insert 0 ''a'', Insert 4 ''b'', Remove 0, InsertOrAssign 4 ''c'', Insert 7 ''d''])) = 2
   \<and> count_occupied (run (the (hash_map_create_with 4))
       [Insert 0 ''a'', Insert 4 ''b'', Remove 0, InsertOrAssign 4 ''c'', Insert 7 ''d'']) = 2"
proof -
  let ?ops = "[Insert 0 ''a'', Insert 4 ''b'', Remove 0, InsertOrAssign 4 ''c'', Insert 7 ''d'']"
  have h1: "hash_map_create_with 4 = Some (the (hash_map_create_with 4))" by code_simp
  have h2: "list_all (\<lambda>x. operation_value x \<noteq> Some []) ?ops" by simp
  have h3: "unat (size_hm (run (the (hash_map_create_with 4)) ?ops)) = 2" by code_simp
  from size_counts_occupied [OF h1, of ?ops] h1 h2 h3 show ?thesis
    by (simp add: list_all_iff)
qed

text \<open>
  An insert of the empty string is counted although the slot stays free: the size is 1
  and no slot is occupied.
\<close>

theorem size_counts_empty_value_counterexample:
  "size_hm (run (the (hash_map_create_with 4)) [Insert 0 []]) = 1 \<and>
   count_occupied (run (the (hash_map_create_with 4)) [Insert 0 []]) = 0"
  by code_simp

section \<open>Insert or assign\<close>

lemma assign_find:
  assumes "wf m" "hash_map_find m k = Some q" "\<not> string_empty v"
  shows "find_value (m\<lparr>pairs := (pairs m)[q := \<lparr>key = k, val = v\<rparr>]\<rparr>) k = Some v"
proof -
  let ?cap = "unat (capacity m)"
  let ?m' = "m\<lparr>pairs := (pairs m)[q := \<lparr>key = k, val = v\<rparr>]\<rparr>"
  from assms(2) have q: "q < ?cap" "hit k (pairs m ! q)"
    unfolding hash_map_find_def using find_loop_hit [OF hash_less [OF assms(1)]] by blast+
  from assms(1) have len: "length (pairs m) = ?cap" by (simp add: wf_def)
  have same: "\<forall>i<?cap. hit k (pairs m ! i) = hit k (pairs ?m' ! i)"
  proof (intro allI impI)
    fix i assume "i < ?cap"
    show "hit k (pairs m ! i) = hit k (pairs ?m' ! i)"
    proof (cases "i = q")
      case True
      with q len assms(3) show ?thesis by (simp add: hit_def)
    next
      case False
      then show ?thesis by simp
    qed
  qed
  have "hash_map_find ?m' k = hash_map_find m k"
    using find_loop_cong [OF same hash_less [OF assms(1)], where n = ?cap, symmetric]
    by (simp add: hash_map_find_def hash_map_hash_def)
  with assms(2) q(1) len show ?thesis by (simp add: find_value_def)
qed

text \<open>
  C6 (amended). For every key \<open>k\<close> already present, \<^verbatim>\<open>hash_map_insert_or_assign\<close>
  succeeds, replaces the value of the slot \<^verbatim>\<open>hash_map_find\<close> returns in place and leaves
  the size unchanged, whatever the load factor, so also when the container is full; if
  the new value is not the empty string, \<^verbatim>\<open>hash_map_find\<close> of \<open>k\<close> returns it afterwards.
  For an absent key the call is \<^verbatim>\<open>hash_map_insert\<close>, and fails without mutation when
  the load factor is at least 1.0.
\<close>

theorem insert_or_assign_rule:
  assumes "wf m"
  shows "(hash_map_contains m k \<longrightarrow>
            (\<exists>q<unat (capacity m). hash_map_find m k = Some q \<and>
               hash_map_insert_or_assign m k v =
                 (True, m\<lparr>pairs := (pairs m)[q := \<lparr>key = k, val = v\<rparr>]\<rparr>)) \<and>
            size_hm (snd (hash_map_insert_or_assign m k v)) = size_hm m \<and>
            (\<not> string_empty v \<longrightarrow>
               find_value (snd (hash_map_insert_or_assign m k v)) k = Some v)) \<and>
         (\<not> hash_map_contains m k \<longrightarrow>
            hash_map_insert_or_assign m k v = hash_map_insert m k v \<and>
            (1 \<le> hash_map_load_factor m \<longrightarrow> hash_map_insert_or_assign m k v = (False, m)))"
proof (cases "hash_map_find m k")
  case None
  then show ?thesis
    by (simp add: hash_map_contains_def hash_map_insert_or_assign_def hash_map_insert_def)
next
  case (Some q)
  then have q: "q < unat (capacity m)" "hit k (pairs m ! q)"
    unfolding hash_map_find_def using find_loop_hit [OF hash_less [OF assms]] by blast+
  from q(2) have upd: "(pairs m ! q)\<lparr>val := string_create_from v\<rparr> = \<lparr>key = k, val = v\<rparr>"
    by (cases "pairs m ! q") (simp add: hit_def string_create_from_def)
  have res: "hash_map_insert_or_assign m k v =
               (True, m\<lparr>pairs := (pairs m)[q := \<lparr>key = k, val = v\<rparr>]\<rparr>)"
    by (simp add: hash_map_insert_or_assign_def Some upd)
  have "\<not> string_empty v \<longrightarrow> find_value (snd (hash_map_insert_or_assign m k v)) k = Some v"
    using assign_find [OF assms Some] by (simp add: res)
  with Some q(1) res show ?thesis by (simp add: hash_map_contains_def)
qed

theorem insert_or_assign_rule_witness:
  "wf (run (the (hash_map_create_with 2)) [Insert 0 ''a'', Insert 1 ''b''])
   \<and> 1 \<le> hash_map_load_factor (run (the (hash_map_create_with 2)) [Insert 0 ''a'', Insert 1 ''b''])
   \<and> hash_map_contains (run (the (hash_map_create_with 2)) [Insert 0 ''a'', Insert 1 ''b'']) 0
   \<and> \<not> string_empty ''z''
   \<and> find_value (snd (hash_map_insert_or_assign
        (run (the (hash_map_create_with 2)) [Insert 0 ''a'', Insert 1 ''b'']) 0 ''z'')) 0 = Some ''z''
   \<and> size_hm (snd (hash_map_insert_or_assign
        (run (the (hash_map_create_with 2)) [Insert 0 ''a'', Insert 1 ''b'']) 0 ''z''))
      = size_hm (run (the (hash_map_create_with 2)) [Insert 0 ''a'', Insert 1 ''b''])
   \<and> \<not> hash_map_contains (run (the (hash_map_create_with 2)) [Insert 0 ''a'', Insert 1 ''b'']) 2
   \<and> hash_map_insert_or_assign
        (run (the (hash_map_create_with 2)) [Insert 0 ''a'', Insert 1 ''b'']) 2 ''c''
      = (False, run (the (hash_map_create_with 2)) [Insert 0 ''a'', Insert 1 ''b''])"
proof -
  let ?m = "run (the (hash_map_create_with 2)) [Insert 0 ''a'', Insert 1 ''b'']"
  have h1: "wf ?m" by code_simp
  have h2: "1 \<le> hash_map_load_factor ?m" by code_simp
  have h3: "hash_map_contains ?m 0" by code_simp
  have h4: "\<not> string_empty ''z''" by code_simp
  have h5: "\<not> hash_map_contains ?m 2" by code_simp
  from insert_or_assign_rule [OF h1, of 0 "''z''"] insert_or_assign_rule [OF h1, of 2 "''c''"]
       h1 h2 h3 h4 h5
  show ?thesis by blast
qed

text \<open>
  Assigning the empty string to a present key succeeds, but the slot then counts as free
  and \<^verbatim>\<open>hash_map_find\<close> returns \<^verbatim>\<open>NULL\<close> instead of the value assigned.
\<close>

theorem insert_or_assign_empty_value_counterexample:
  "hash_map_contains (run (the (hash_map_create_with 4)) [Insert 0 ''a'']) 0 \<and>
   fst (hash_map_insert_or_assign (run (the (hash_map_create_with 4)) [Insert 0 ''a'']) 0 []) \<and>
   find_value (snd (hash_map_insert_or_assign
     (run (the (hash_map_create_with 4)) [Insert 0 ''a'']) 0 [])) 0 = None \<and>
   find_value (snd (hash_map_insert_or_assign
     (run (the (hash_map_create_with 4)) [Insert 0 ''a'']) 0 [])) 0 \<noteq> Some []"
  by code_simp

section \<open>Traversal\<close>


















section \<open>Duplicate insert\<close>

lemma probe_hit_blocks:
  "p < unat (capacity m) \<Longrightarrow>
   probe_hit (pairs m) (unat (capacity m)) k p n = Some q \<Longrightarrow>
   insert_loop m k w p n = (False, m) \<and>
   find_loop (pairs m) (unat (capacity m)) k p n = Some q \<and>
   q < unat (capacity m) \<and> hit k (pairs m ! q)"
proof (induction n arbitrary: p)
  case 0
  then show ?case by simp
next
  case (Suc n)
  let ?cap = "unat (capacity m)"
  from Suc.prems(2) have ne: "\<not> string_empty (val (pairs m ! p))"
    by (auto split: if_splits)
  show ?case
  proof (cases "key (pairs m ! p) = k")
    case True
    with ne Suc.prems show ?thesis by (simp add: hit_def)
  next
    case False
    with ne Suc.prems(2) have "probe_hit (pairs m) ?cap k (advance ?cap p) n = Some q" by simp
    from Suc.IH [OF _ this] Suc.prems(1) False ne show ?thesis
      by (simp add: advance_less)
  qed
qed

lemma insert_loop_probe_hit:
  assumes "p < unat (capacity m)" "length (pairs m) = unat (capacity m)"
    and "\<not> string_empty v" "insert_loop m k v p n = (True, m')"
  shows "\<exists>q. probe_hit (pairs m') (unat (capacity m)) k p n = Some q \<and>
           val (pairs m' ! q) = v"
  using assms
proof (induction n arbitrary: p)
  case 0
  then show ?case by simp
next
  case (Suc n)
  let ?cap = "unat (capacity m)"
  show ?case
  proof (cases "string_empty (val (pairs m ! p))")
    case True
    with Suc.prems show ?thesis
      by (auto simp: string_create_from_def)
  next
    case False
    with Suc.prems have neq: "key (pairs m ! p) \<noteq> k"
      and rec: "insert_loop m k v (advance ?cap p) n = (True, m')"
      by (auto split: if_splits)
    from Suc.IH [OF _ Suc.prems(2,3) rec] Suc.prems(1)
    obtain q where q: "probe_hit (pairs m') ?cap k (advance ?cap p) n = Some q"
      "val (pairs m' ! q) = v"
      by (auto simp: advance_less)
    from insert_loop_True [OF _ rec] Suc.prems(1)
    obtain r where r: "r < ?cap" "string_empty (val (pairs m ! r))"
      "pairs m' = (pairs m)[r := \<lparr>key = k, val = string_create_from v\<rparr>]"
      by (auto simp: advance_less)
    from r(2) False have "r \<noteq> p" by auto
    with r(3) have "pairs m' ! p = pairs m ! p" by simp
    with neq False q show ?thesis by simp
  qed
qed

lemma probe_hit_mono:
  assumes "\<forall>i<cap. \<not> string_empty (val (ps ! i)) \<longrightarrow>
             \<not> string_empty (val (ps' ! i)) \<and> key (ps' ! i) = key (ps ! i)"
    and "p < cap" "probe_hit ps cap k p n = Some q"
  shows "probe_hit ps' cap k p n = Some q"
  using assms(2,3)
proof (induction n arbitrary: p)
  case 0
  then show ?case by simp
next
  case (Suc n)
  from Suc.prems(2) have ne: "\<not> string_empty (val (ps ! p))"
    by (auto split: if_splits)
  with assms(1) Suc.prems(1)
  have ne': "\<not> string_empty (val (ps' ! p))" and k': "key (ps' ! p) = key (ps ! p)" by simp_all
  show ?case
  proof (cases "key (ps ! p) = k")
    case True
    with ne ne' k' Suc.prems(2) show ?thesis by simp
  next
    case False
    with ne Suc.prems(2) have "probe_hit ps cap k (advance cap p) n = Some q" by simp
    from Suc.IH [OF _ this] Suc.prems(1) have "probe_hit ps' cap k (advance cap p) n = Some q"
      by (simp add: advance_less)
    with False ne' k' show ?thesis by simp
  qed
qed

lemma insert_loop_length: "length (pairs (snd (insert_loop m k v p n))) = length (pairs m)"
  by (induction n arbitrary: p) simp_all

lemma clear_loop_length: "length (clear_loop ps i n) = length ps"
  by (induction n arbitrary: ps i) simp_all

lemma apply_operation_length: "length (pairs (apply_operation m x)) = length (pairs m)"
proof (cases x)
  case (Insert k v)
  then show ?thesis by (simp add: hash_map_insert_def insert_loop_length)
next
  case (InsertOrAssign k v)
  then show ?thesis
    by (simp add: hash_map_insert_or_assign_def hash_map_insert_def insert_loop_length
        split: option.splits)
next
  case (Remove k)
  then show ?thesis
    by (simp add: hash_map_remove_def remove_loop_eq split: option.splits)
next
  case Clear
  then show ?thesis by (simp add: hash_map_clear_def clear_loop_length)
qed

lemma apply_operation_wf: "wf m \<Longrightarrow> wf (apply_operation m x)"
  by (simp add: wf_def apply_operation_capacity apply_operation_length)

lemma run_wf: "wf m \<Longrightarrow> wf (run m ops)"
  by (induction ops arbitrary: m) (simp_all add: apply_operation_wf)

lemma insert_keeps_occupied:
  assumes "wf m" "i < unat (capacity m)" "occupied m i"
  shows "pairs (snd (hash_map_insert m k v)) ! i = pairs m ! i"
proof (cases "hash_map_insert m k v")
  case (Pair b m')
  show ?thesis
  proof (cases b)
    case True
    with Pair insert_True_shape [OF assms(1), of k v m']
    have "insert_loop m k v (hash_map_hash m k) (unat (capacity m)) = (True, m')" by simp
    from insert_loop_True [OF hash_less [OF assms(1)] this]
    obtain q where "string_empty (val (pairs m ! q))"
      "pairs m' = (pairs m)[q := \<lparr>key = k, val = string_create_from v\<rparr>]" by auto
    with assms(3) have "i \<noteq> q" "pairs m' = (pairs m)[q := \<lparr>key = k, val = string_create_from v\<rparr>]"
      by (auto simp: occupied_def)
    then have "pairs m' ! i = pairs m ! i" by simp
    with Pair show ?thesis by simp
  next
    case False
    with Pair insert_False [of m k v m'] show ?thesis by simp
  qed
qed

lemma apply_operation_slot:
  assumes "wf m" "i < unat (capacity m)" "occupied m i" "occupied (apply_operation m x) i"
  shows "key (pairs (apply_operation m x) ! i) = key (pairs m ! i) \<and>
         (\<not> assigns (key (pairs m ! i)) x \<longrightarrow>
            val (pairs (apply_operation m x) ! i) = val (pairs m ! i))"
proof (cases x)
  case (Insert k v)
  with insert_keeps_occupied [OF assms(1-3)] show ?thesis by simp
next
  case (InsertOrAssign k v)
  show ?thesis
  proof (cases "hash_map_find m k")
    case None
    with insert_keeps_occupied [OF assms(1-3)] show ?thesis
      by (simp add: InsertOrAssign hash_map_insert_or_assign_def)
  next
    case (Some q)
    then have q: "q < unat (capacity m)" "hit k (pairs m ! q)"
      unfolding hash_map_find_def using find_loop_hit [OF hash_less [OF assms(1)]] by blast+
    from assms(1) q(1) have "q < length (pairs m)" by (simp add: wf_def)
    with q(2) Some show ?thesis
      by (cases "i = q") (auto simp: InsertOrAssign hash_map_insert_or_assign_def hit_def)
  qed
next
  case (Remove k)
  show ?thesis
  proof (cases "hash_map_remove m k")
    case (Pair b m')
    show ?thesis
    proof (cases b)
      case True
      with Pair remove_True_shape [OF assms(1), of k m']
      obtain q where q: "q < unat (capacity m)"
        "m' = m\<lparr>pairs := (pairs m)[q := (pairs m ! q)\<lparr>val := string_zero\<rparr>],
                 size_hm := size_hm m - 1\<rparr>" by auto
      from assms(1) q(1) have len: "q < length (pairs m)" by (simp add: wf_def)
      have "i \<noteq> q"
      proof
        assume "i = q"
        with assms(4) Pair q(2) len show False
          by (simp add: Remove occupied_def string_zero_def string_empty_def)
      qed
      with Pair q(2) show ?thesis by (simp add: Remove)
    next
      case False
      with Pair remove_False [of m k m'] show ?thesis by (simp add: Remove)
    qed
  qed
next
  case Clear
  from assms(1,2,4) have False
    by (simp add: Clear occupied_def clear_pairs pair_zero_def string_zero_def string_empty_def)
  then show ?thesis ..
qed

lemma run_keeps_probe_hit:
  assumes "wf m" "frees_no_slot m ops"
    and "probe_hit (pairs m) (unat (capacity m)) k (hash_map_hash m k) (unat (capacity m)) = Some q"
  shows "probe_hit (pairs (run m ops)) (unat (capacity m)) k (hash_map_hash m k)
           (unat (capacity m)) = Some q \<and>
         ((\<forall>x\<in>set ops. \<not> assigns k x) \<longrightarrow> val (pairs (run m ops) ! q) = val (pairs m ! q))"
  using assms
proof (induction ops arbitrary: m)
  case Nil
  then show ?case by simp
next
  case (Cons x ops)
  let ?cap = "unat (capacity m)"
  let ?m' = "apply_operation m x"
  have cap': "capacity ?m' = capacity m" by (rule apply_operation_capacity)
  have h': "hash_map_hash ?m' k = hash_map_hash m k" by (simp add: hash_map_hash_def cap')
  from Cons.prems(2) have stay: "\<forall>i<?cap. occupied m i \<longrightarrow> occupied ?m' i"
    and rest: "frees_no_slot ?m' ops"
    by (simp_all add: list_all_iff)
  have mono: "\<forall>i<?cap. \<not> string_empty (val (pairs m ! i)) \<longrightarrow>
      \<not> string_empty (val (pairs ?m' ! i)) \<and> key (pairs ?m' ! i) = key (pairs m ! i)"
  proof (intro allI impI)
    fix i assume i: "i < ?cap" and "\<not> string_empty (val (pairs m ! i))"
    then have o: "occupied m i" by (simp add: occupied_def)
    with stay i have o': "occupied ?m' i" by simp
    from apply_operation_slot [OF Cons.prems(1) i o o'] o'
    show "\<not> string_empty (val (pairs ?m' ! i)) \<and> key (pairs ?m' ! i) = key (pairs m ! i)"
      by (simp add: occupied_def)
  qed
  from probe_hit_mono [OF mono hash_less [OF Cons.prems(1)] Cons.prems(3)]
  have ph': "probe_hit (pairs ?m') ?cap k (hash_map_hash m k) ?cap = Some q" .
  from probe_hit_blocks [OF hash_less [OF Cons.prems(1)] Cons.prems(3)]
  have q: "q < ?cap" "hit k (pairs m ! q)" by simp_all
  then have oq: "occupied m q" and kq: "key (pairs m ! q) = k"
    by (simp_all add: hit_def occupied_def)
  with stay q(1) have oq': "occupied ?m' q" by simp
  from apply_operation_slot [OF Cons.prems(1) q(1) oq oq'] kq
  have vq: "\<not> assigns k x \<longrightarrow> val (pairs ?m' ! q) = val (pairs m ! q)" by simp
  from Cons.IH [OF apply_operation_wf [OF Cons.prems(1)] rest] ph'
  have "probe_hit (pairs (run ?m' ops)) ?cap k (hash_map_hash m k) ?cap = Some q \<and>
        ((\<forall>x\<in>set ops. \<not> assigns k x) \<longrightarrow> val (pairs (run ?m' ops) ! q) = val (pairs ?m' ! q))"
    by (simp add: cap' h')
  with vq show ?case by simp
qed

text \<open>
  C5 (amended). Duplicate insert: if \<^verbatim>\<open>hash_map_insert\<close> of key \<open>k\<close> with a value
  \<open>v1\<close> that is not the empty string succeeds and then, after any calls of which none
  frees an occupied slot (no intervening removal), \<^verbatim>\<open>hash_map_insert\<close> of \<open>k\<close> is called
  again, the second call returns false and hands back the map as it was, so the size is
  unchanged; and \<^verbatim>\<open>hash_map_find\<close> still returns \<open>v1\<close> if none of the calls in between
  was an \<^verbatim>\<open>hash_map_insert_or_assign\<close> of \<open>k\<close>.
\<close>

theorem duplicate_insert_rejected:
  assumes "wf m" "\<not> string_empty v1" "hash_map_insert m k v1 = (True, m1)"
    and "frees_no_slot m1 ops" "m2 = run m1 ops"
  shows "hash_map_insert m2 k v2 = (False, m2) \<and>
         ((\<forall>x\<in>set ops. \<not> assigns k x) \<longrightarrow> find_value m2 k = Some v1)"
proof -
  let ?cap = "unat (capacity m)"
  from insert_True_shape [OF assms(1,3)]
  have il: "insert_loop m k v1 (hash_map_hash m k) ?cap = (True, m1)"
    and cap: "capacity m1 = capacity m" and len1: "length (pairs m1) = length (pairs m)"
    by auto
  from assms(1) have len: "length (pairs m) = ?cap" by (simp add: wf_def)
  from assms(1) cap len1 have wf1: "wf m1" by (simp add: wf_def)
  have h1: "hash_map_hash m1 k = hash_map_hash m k" by (simp add: hash_map_hash_def cap)
  from insert_loop_probe_hit [OF hash_less [OF assms(1)] len assms(2) il]
  obtain q where q: "probe_hit (pairs m1) ?cap k (hash_map_hash m k) ?cap = Some q"
    "val (pairs m1 ! q) = v1" by blast
  from run_keeps_probe_hit [OF wf1 assms(4), of k q] q(1)
  have ph2: "probe_hit (pairs m2) ?cap k (hash_map_hash m k) ?cap = Some q"
    and v2: "(\<forall>x\<in>set ops. \<not> assigns k x) \<longrightarrow> val (pairs m2 ! q) = val (pairs m1 ! q)"
    by (simp_all add: cap h1 assms(5))
  have cap2: "capacity m2 = capacity m" by (simp add: assms(5) run_capacity cap)
  from assms(5) wf1 have wf2: "wf m2" by (simp add: run_wf)
  have h2: "hash_map_hash m2 k = hash_map_hash m k" by (simp add: hash_map_hash_def cap2)
  from probe_hit_blocks [of "hash_map_hash m k" m2 k ?cap q v2] ph2 hash_less [OF wf2, of k]
  have "insert_loop m2 k v2 (hash_map_hash m k) ?cap = (False, m2)"
    and "find_loop (pairs m2) ?cap k (hash_map_hash m k) ?cap = Some q"
    by (simp_all add: cap2 h2)
  then have "hash_map_insert m2 k v2 = (False, m2)" and "find_value m2 k = Some (val (pairs m2 ! q))"
    by (simp_all add: hash_map_insert_def find_value_def hash_map_find_def cap2 h2)
  with v2 q(2) show ?thesis by simp
qed

theorem duplicate_insert_rejected_witness:
  "wf (the (hash_map_create_with 4)) \<and> \<not> string_empty ''a''
   \<and> fst (hash_map_insert (the (hash_map_create_with 4)) 5 ''a'')
   \<and> frees_no_slot (snd (hash_map_insert (the (hash_map_create_with 4)) 5 ''a''))
        [Insert 1 ''x'', InsertOrAssign 1 ''y'', Insert 9 ''z'', Remove 7]
   \<and> list_all (\<lambda>x. \<not> assigns 5 x)
        [Insert 1 ''x'', InsertOrAssign 1 ''y'', Insert 9 ''z'', Remove 7]
   \<and> hash_map_insert
        (run (snd (hash_map_insert (the (hash_map_create_with 4)) 5 ''a''))
           [Insert 1 ''x'', InsertOrAssign 1 ''y'', Insert 9 ''z'', Remove 7]) 5 ''c''
      = (False, run (snd (hash_map_insert (the (hash_map_create_with 4)) 5 ''a''))
           [Insert 1 ''x'', InsertOrAssign 1 ''y'', Insert 9 ''z'', Remove 7])
   \<and> find_value
        (run (snd (hash_map_insert (the (hash_map_create_with 4)) 5 ''a''))
           [Insert 1 ''x'', InsertOrAssign 1 ''y'', Insert 9 ''z'', Remove 7]) 5 = Some ''a''
   \<and> size_hm (run (snd (hash_map_insert (the (hash_map_create_with 4)) 5 ''a''))
           [Insert 1 ''x'', InsertOrAssign 1 ''y'', Insert 9 ''z'', Remove 7]) = 3"
proof -
  let ?m = "the (hash_map_create_with 4)"
  let ?m1 = "snd (hash_map_insert ?m 5 ''a'')"
  let ?ops = "[Insert 1 ''x'', InsertOrAssign 1 ''y'', Insert 9 ''z'', Remove 7]"
  have h1: "wf ?m" by code_simp
  have h2: "\<not> string_empty ''a''" by code_simp
  have h3: "hash_map_insert ?m 5 ''a'' = (True, ?m1)" by code_simp
  have h4: "frees_no_slot ?m1 ?ops" by code_simp
  have h5: "\<forall>x\<in>set ?ops. \<not> assigns 5 x" by simp
  have h6: "fst (hash_map_insert ?m 5 ''a'')" by code_simp
  have h7: "size_hm (run ?m1 ?ops) = 3" by code_simp
  from duplicate_insert_rejected [OF h1 h2 h3 h4 refl, of "''c''"] h1 h2 h4 h5 h6 h7
  show ?thesis by (simp add: list_all_iff)
qed

text \<open>
  With the empty string as first value the second insert of the same key succeeds too,
  and the size grows again.
\<close>

theorem duplicate_insert_empty_value_counterexample:
  "fst (hash_map_insert (the (hash_map_create_with 4)) 0 []) \<and>
   fst (hash_map_insert (snd (hash_map_insert (the (hash_map_create_with 4)) 0 [])) 0 ''b'') \<and>
   size_hm (snd (hash_map_insert (snd (hash_map_insert (the (hash_map_create_with 4)) 0 [])) 0 ''b''))
     \<noteq> size_hm (snd (hash_map_insert (the (hash_map_create_with 4)) 0 []))"
  by code_simp

text \<open>
  The two conditions on the calls in between are needed. An
  \<^verbatim>\<open>hash_map_insert_or_assign\<close> of the empty string to a present key frees its slot as a
  removal does: after it, the second insert of key 4 succeeds. An
  \<^verbatim>\<open>hash_map_insert_or_assign\<close> of the key itself replaces the value: the second insert
  still fails, and \<^verbatim>\<open>hash_map_find\<close> returns the value assigned.
\<close>

lemma duplicate_insert_after_empty_assign:
  "fst (hash_map_insert (run (the (hash_map_create_with 4)) [Insert 0 ''a'']) 4 ''b'') \<and>
   \<not> frees_no_slot
       (snd (hash_map_insert (run (the (hash_map_create_with 4)) [Insert 0 ''a'']) 4 ''b''))
       [InsertOrAssign 0 []] \<and>
   fst (hash_map_insert
     (run (snd (hash_map_insert (run (the (hash_map_create_with 4)) [Insert 0 ''a'']) 4 ''b''))
        [InsertOrAssign 0 []]) 4 ''c'')"
  by code_simp

lemma duplicate_insert_after_assign:
  "fst (hash_map_insert (the (hash_map_create_with 4)) 5 ''a'') \<and>
   frees_no_slot (snd (hash_map_insert (the (hash_map_create_with 4)) 5 ''a''))
     [InsertOrAssign 5 ''z''] \<and>
   \<not> fst (hash_map_insert
       (run (snd (hash_map_insert (the (hash_map_create_with 4)) 5 ''a''))
          [InsertOrAssign 5 ''z'']) 5 ''c'') \<and>
   find_value (run (snd (hash_map_insert (the (hash_map_create_with 4)) 5 ''a''))
          [InsertOrAssign 5 ''z'']) 5 = Some ''z''"
  by code_simp

end
